theory Spec2Isabelle
  imports Main "HOL-Library.Multiset"
begin

section \<open>The closest-sum-to-zero finder of closest\_sum.py\<close>

text \<open>
  The function \<open>find_closest_sum_to_zero(arr)\<close> of \<open>src/closest_sum.py\<close> takes a Python
  list of integers, raises \<open>ValueError\<close> when it has fewer than two elements, sorts the
  list in place and then scans it with two cursors. Python integers are unbounded, so
  they are \<open>int\<close> here, and so are the cursors \<open>left\<close> and \<open>right\<close>.
\<close>

subsection \<open>Values and errors\<close>

text \<open>
  The two exceptions the function body can raise: the explicit \<open>ValueError\<close> of line 22,
  and the \<open>IndexError\<close> of a subscript \<open>arr[i]\<close> that is out of range.
\<close>

datatype error = ValueError string | IndexError

text \<open>
  \<open>min_sum\<close> starts as \<open>float('inf')\<close> (line 30) and holds a Python integer after the
  first update (line 39).
\<close>

datatype number = FloatInf | IntVal int

text \<open>
  The test of line 38, \<open>abs(current_sum) < abs(min_sum)\<close>: Python compares an
  integer with the float infinity exactly, and every integer is below infinity.
\<close>

fun abs_lt :: "int \<Rightarrow> number \<Rightarrow> bool" where
  "abs_lt c FloatInf = True"
| "abs_lt c (IntVal m) = (\<bar>c\<bar> < \<bar>m\<bar>)"

text \<open>
  The subscript \<open>arr[i]\<close> of a Python list: a negative index counts from the end, and
  an index outside \<open>-len(arr) .. len(arr) - 1\<close> raises \<open>IndexError\<close>.
\<close>

definition getitem :: "int list \<Rightarrow> int \<Rightarrow> error + int" where
  "getitem arr i =
     (if 0 \<le> i \<and> i < int (length arr) then Inr (arr ! nat i)
      else if i < 0 \<and> - int (length arr) \<le> i then Inr (arr ! nat (int (length arr) + i))
      else Inl IndexError)"

subsection \<open>The state of the scan\<close>

text \<open>
  The local variables of lines 28 to 31. The result tuple starts as \<open>(None, None)\<close>, so
  each of its components is an optional integer.
\<close>

record scan_state =
  left :: int
  right :: int
  min_sum :: number
  result :: "int option \<times> int option"

text \<open>The initial values of lines 28 to 31, for the (already sorted) list \<open>arr\<close>.\<close>

definition init_state :: "int list \<Rightarrow> scan_state" where
  "init_state arr =
     \<lparr>left = 0, right = int (length arr) - 1, min_sum = FloatInf, result = (None, None)\<rparr>"

text \<open>Lines 38 to 40: the incumbent is replaced when the test of line 38 succeeds.\<close>

definition update_best :: "int \<Rightarrow> int \<Rightarrow> scan_state \<Rightarrow> scan_state" where
  "update_best x y s =
     (if abs_lt (x + y) (min_sum s)
      then s\<lparr>min_sum := IntVal (x + y), result := (Some x, Some y)\<rparr>
      else s)"

text \<open>Lines 43 to 46: one of the cursors moves, according to the sign of the sum.\<close>

definition move_pointers :: "int \<Rightarrow> scan_state \<Rightarrow> scan_state" where
  "move_pointers current_sum s =
     (if current_sum < 0 then s\<lparr>left := left s + 1\<rparr> else s\<lparr>right := right s - 1\<rparr>)"

text \<open>
  The body of the loop, lines 35 to 46. The two subscripts are evaluated left to
  right; either may raise.
\<close>

definition body :: "int list \<Rightarrow> scan_state \<Rightarrow> error + scan_state" where
  "body arr s =
     (case getitem arr (left s) of
        Inl e \<Rightarrow> Inl e
      | Inr x \<Rightarrow>
          (case getitem arr (right s) of
             Inl e \<Rightarrow> Inl e
           | Inr y \<Rightarrow> Inr (move_pointers (x + y) (update_best x y s))))"

text \<open>The loop of lines 34 to 46; it returns the state in which it stops.\<close>

function while_loop :: "int list \<Rightarrow> scan_state \<Rightarrow> error + scan_state" where
  "while_loop arr s =
     (if left s < right s
      then (case body arr s of Inl e \<Rightarrow> Inl e | Inr s' \<Rightarrow> while_loop arr s')
      else Inr s)"
  by pat_completeness auto
termination
  by (relation "measure (\<lambda>(arr, s). nat (right s - left s))")
     (auto simp: body_def move_pointers_def update_best_def split: sum.splits if_splits)

declare while_loop.simps [simp del]

text \<open>
  The whole function. The list is an argument that the call mutates, so the model
  returns the list as the caller sees it afterwards together with the outcome: the
  exception raised, or the tuple returned. The guard of line 21 raises before the sort
  of line 25, so the caller's list is untouched on that path. \<open>arr.sort()\<close> puts the
  integers in non-decreasing order; that is \<open>sort\<close>.
\<close>

definition find_closest_sum_to_zero ::
    "int list \<Rightarrow> int list \<times> (error + int option \<times> int option)" where
  "find_closest_sum_to_zero arr =
     (if length arr < 2
      then (arr, Inl (ValueError ''Array must contain at least 2 elements''))
      else
        (let arr' = sort arr in
         (arr', (case while_loop arr' (init_state arr') of
                   Inl e \<Rightarrow> Inl e
                 | Inr s \<Rightarrow> Inr (result s)))))"

text \<open>
  The cursor pairs at which the loop body runs, in the order of the scan. This is the
  loop of \<open>while_loop\<close> again, recording \<open>(left, right)\<close> at the head of every iteration.
\<close>

function visited :: "int list \<Rightarrow> scan_state \<Rightarrow> (int \<times> int) list" where
  "visited arr s =
     (if left s < right s
      then (left s, right s) #
           (case body arr s of Inl e \<Rightarrow> [] | Inr s' \<Rightarrow> visited arr s')
      else [])"
  by pat_completeness auto
termination
  by (relation "measure (\<lambda>(arr, s). nat (right s - left s))")
     (auto simp: body_def move_pointers_def update_best_def split: sum.splits if_splits)

declare visited.simps [simp del]

text \<open>The sum and the tuple that the body forms at a cursor pair of a list.\<close>

definition pair_sum :: "int list \<Rightarrow> int \<times> int \<Rightarrow> int" where
  "pair_sum arr p = arr ! nat (fst p) + arr ! nat (snd p)"

definition pair_at :: "int list \<Rightarrow> int \<times> int \<Rightarrow> int option \<times> int option" where
  "pair_at arr p = (Some (arr ! nat (fst p)), Some (arr ! nat (snd p)))"

text \<open>
  The loop body of lines 35 to 46 run \<open>n\<close> times in a row, with no test of the loop
  condition in between; an exception raised by one run ends the sequence. It is the
  yardstick for how many iterations \<open>while_loop\<close> makes before it stops.
\<close>

fun iterate_body :: "nat \<Rightarrow> int list \<Rightarrow> scan_state \<Rightarrow> error + scan_state" where
  "iterate_body 0 arr s = Inr s"
| "iterate_body (Suc n) arr s =
     (case body arr s of Inl e \<Rightarrow> Inl e | Inr s' \<Rightarrow> iterate_body n arr s')"

section \<open>Properties of the loop\<close>

subsection \<open>One iteration\<close>

text \<open>
  While the cursors satisfy \<open>0 \<le> left < right < len(arr)\<close> neither subscript raises,
  and the body leaves the cursors inside the same bounds.
\<close>

lemma body_in_range:
  assumes "0 \<le> left s" "left s < right s" "right s < int (length arr)"
  shows "body arr s =
           Inr (move_pointers (pair_sum arr (left s, right s))
                  (update_best (arr ! nat (left s)) (arr ! nat (right s)) s))"
  using assms by (simp add: body_def getitem_def pair_sum_def)

lemma body_left_right:
  assumes "0 \<le> left s" "left s < right s" "right s < int (length arr)"
    and "body arr s = Inr s'"
  shows "0 \<le> left s' \<and> left s' \<le> right s' \<and> right s' < int (length arr)
         \<and> left s \<le> left s' \<and> right s' \<le> right s"
  using assms
  by (auto simp: body_in_range move_pointers_def update_best_def split: if_splits)

lemma body_fields:
  assumes "0 \<le> left s" "left s < right s" "right s < int (length arr)"
    and "body arr s = Inr s'"
  shows "left s' = (if pair_sum arr (left s, right s) < 0 then left s + 1 else left s)"
    and "right s' = (if pair_sum arr (left s, right s) < 0 then right s else right s - 1)"
    and "min_sum s' = (if abs_lt (pair_sum arr (left s, right s)) (min_sum s)
                       then IntVal (pair_sum arr (left s, right s)) else min_sum s)"
    and "result s' = (if abs_lt (pair_sum arr (left s, right s)) (min_sum s)
                      then pair_at arr (left s, right s) else result s)"
  using assms
  by (auto simp: body_def getitem_def pair_sum_def pair_at_def move_pointers_def
      update_best_def)

text \<open>Two facts about the comparison of line 38.\<close>

lemma abs_lt_trans:
  "\<bar>c\<bar> < \<bar>d\<bar> \<Longrightarrow> abs_lt d m \<Longrightarrow> abs_lt c m"
  by (cases m) auto

lemma abs_lt_between:
  "abs_lt c m \<Longrightarrow> \<not> abs_lt d m \<Longrightarrow> \<bar>c\<bar> < \<bar>d\<bar>"
  by (cases m) auto

subsection \<open>The cursor pairs of a scan\<close>

text \<open>
  Every cursor pair of the scan lies inside the window it started from, and the scan
  runs exactly \<open>right - left\<close> iterations.
\<close>

lemma visited_bounds:
  assumes "0 \<le> left s" "left s \<le> right s" "right s < int (length arr)"
    and "p \<in> set (visited arr s)"
  shows "left s \<le> fst p \<and> fst p < snd p \<and> snd p \<le> right s"
  using assms
proof (induction arr s rule: visited.induct)
  case (1 arr s)
  show ?case
  proof (cases "left s < right s")
    case False
    with "1.prems" show ?thesis by (simp add: visited.simps)
  next
    case True
    obtain s' where b: "body arr s = Inr s'"
      using body_in_range [OF "1.prems"(1) True "1.prems"(3)] by blast
    note inv = body_left_right [OF "1.prems"(1) True "1.prems"(3) b]
    from "1.prems"(4) True b have "p = (left s, right s) \<or> p \<in> set (visited arr s')"
      by (subst (asm) visited.simps) auto
    then show ?thesis
    proof
      assume "p = (left s, right s)"
      with True show ?thesis by simp
    next
      assume "p \<in> set (visited arr s')"
      with "1.IH" [OF True b] inv show ?thesis by auto
    qed
  qed
qed

lemma visited_length:
  assumes "0 \<le> left s" "left s \<le> right s" "right s < int (length arr)"
  shows "length (visited arr s) = nat (right s - left s)"
  using assms
proof (induction arr s rule: visited.induct)
  case (1 arr s)
  show ?case
  proof (cases "left s < right s")
    case False
    with "1.prems" show ?thesis by (simp add: visited.simps)
  next
    case True
    obtain s' where b: "body arr s = Inr s'"
      using body_in_range [OF "1.prems"(1) True "1.prems"(3)] by blast
    note inv = body_left_right [OF "1.prems"(1) True "1.prems"(3) b]
    have "right s' - left s' = right s - left s - 1"
      using b True "1.prems"
      by (auto simp: body_in_range move_pointers_def update_best_def split: if_splits)
    moreover have "length (visited arr s') = nat (right s' - left s')"
      using "1.IH" [OF True b] inv by simp
    moreover have "visited arr s = (left s, right s) # visited arr s'"
      using True b by (subst visited.simps) simp
    ultimately show ?thesis using True by simp
  qed
qed

subsection \<open>The loop keeps the first of the smallest sums\<close>

text \<open>
  From a state inside the bounds the loop returns a state whose cursors have met.
  Either no cursor pair of the scan passed the test of line 38 and the incumbent is
  the one the loop started with, or the incumbent is the pair of one iteration whose
  absolute sum is strictly below those of all earlier iterations and at most those of
  all later ones.
\<close>

lemma while_loop_first_min:
  assumes "0 \<le> left s" "left s \<le> right s" "right s < int (length arr)"
  shows "\<exists>t. while_loop arr s = Inr t \<and> left t = right t \<and>
           ((min_sum t = min_sum s \<and> result t = result s \<and>
             (\<forall>p\<in>set (visited arr s). \<not> abs_lt (pair_sum arr p) (min_sum s)))
            \<or> (\<exists>pre p post. visited arr s = pre @ p # post \<and>
                  min_sum t = IntVal (pair_sum arr p) \<and> result t = pair_at arr p \<and>
                  abs_lt (pair_sum arr p) (min_sum s) \<and>
                  (\<forall>q\<in>set pre. \<bar>pair_sum arr p\<bar> < \<bar>pair_sum arr q\<bar>) \<and>
                  (\<forall>q\<in>set post. \<bar>pair_sum arr p\<bar> \<le> \<bar>pair_sum arr q\<bar>)))"
  using assms
proof (induction arr s rule: while_loop.induct)
  case (1 arr s)
  show ?case
  proof (cases "left s < right s")
    case False
    with "1.prems" show ?thesis
      by (simp add: while_loop.simps visited.simps)
  next
    case True
    let ?c = "pair_sum arr (left s, right s)"
    let ?u = "update_best (arr ! nat (left s)) (arr ! nat (right s)) s"
    define s' where "s' = move_pointers ?c ?u"
    have b: "body arr s = Inr s'"
      unfolding s'_def by (rule body_in_range [OF "1.prems"(1) True "1.prems"(3)])
    note inv = body_left_right [OF "1.prems"(1) True "1.prems"(3) b]
    have vis: "visited arr s = (left s, right s) # visited arr s'"
      using True b by (subst visited.simps) simp
    have loop: "while_loop arr s = while_loop arr s'"
      using True b by (subst while_loop.simps) simp
    note f = body_fields [OF "1.prems"(1) True "1.prems"(3) b]
    from "1.IH" [OF True b] inv obtain t where
      t: "while_loop arr s' = Inr t" "left t = right t" and
      alt: "(min_sum t = min_sum s' \<and> result t = result s' \<and>
             (\<forall>p\<in>set (visited arr s'). \<not> abs_lt (pair_sum arr p) (min_sum s')))
            \<or> (\<exists>pre p post. visited arr s' = pre @ p # post \<and>
                  min_sum t = IntVal (pair_sum arr p) \<and> result t = pair_at arr p \<and>
                  abs_lt (pair_sum arr p) (min_sum s') \<and>
                  (\<forall>q\<in>set pre. \<bar>pair_sum arr p\<bar> < \<bar>pair_sum arr q\<bar>) \<and>
                  (\<forall>q\<in>set post. \<bar>pair_sum arr p\<bar> \<le> \<bar>pair_sum arr q\<bar>))"
      by blast
    show ?thesis
    proof (cases "abs_lt ?c (min_sum s)")
      case upd: True
      then have u: "min_sum s' = IntVal ?c" "result s' = pair_at arr (left s, right s)"
        by (simp_all add: f)
      from alt show ?thesis
      proof (elim disjE conjE exE)
        assume a: "min_sum t = min_sum s'" "result t = result s'"
          "\<forall>p\<in>set (visited arr s'). \<not> abs_lt (pair_sum arr p) (min_sum s')"
        have "visited arr s = [] @ (left s, right s) # visited arr s'"
          by (simp add: vis)
        moreover have "\<forall>q\<in>set (visited arr s'). \<bar>?c\<bar> \<le> \<bar>pair_sum arr q\<bar>"
          using a(3) by (auto simp: u(1))
        ultimately show ?thesis
          using t a(1,2) u upd unfolding loop by fastforce
      next
        fix pre p post
        assume a: "visited arr s' = pre @ p # post"
          "min_sum t = IntVal (pair_sum arr p)" "result t = pair_at arr p"
          "abs_lt (pair_sum arr p) (min_sum s')"
          "\<forall>q\<in>set pre. \<bar>pair_sum arr p\<bar> < \<bar>pair_sum arr q\<bar>"
          "\<forall>q\<in>set post. \<bar>pair_sum arr p\<bar> \<le> \<bar>pair_sum arr q\<bar>"
        have lt: "\<bar>pair_sum arr p\<bar> < \<bar>?c\<bar>"
          using a(4) by (simp add: u(1))
        have "visited arr s = ((left s, right s) # pre) @ p # post"
          by (simp add: vis a(1))
        moreover have "abs_lt (pair_sum arr p) (min_sum s)"
          by (rule abs_lt_trans [OF lt upd])
        moreover have "\<forall>q\<in>set ((left s, right s) # pre). \<bar>pair_sum arr p\<bar> < \<bar>pair_sum arr q\<bar>"
          using a(5) lt by simp
        ultimately show ?thesis
          using t a(2,3,6) unfolding loop by blast
      qed
    next
      case noupd: False
      then have u: "min_sum s' = min_sum s" "result s' = result s"
        by (simp_all add: f)
      from alt show ?thesis
      proof (elim disjE conjE exE)
        assume a: "min_sum t = min_sum s'" "result t = result s'"
          "\<forall>p\<in>set (visited arr s'). \<not> abs_lt (pair_sum arr p) (min_sum s')"
        have "\<forall>p\<in>set (visited arr s). \<not> abs_lt (pair_sum arr p) (min_sum s)"
          using a(3) noupd by (simp add: vis u(1))
        then show ?thesis
          using t a(1,2) u unfolding loop by simp
      next
        fix pre p post
        assume a: "visited arr s' = pre @ p # post"
          "min_sum t = IntVal (pair_sum arr p)" "result t = pair_at arr p"
          "abs_lt (pair_sum arr p) (min_sum s')"
          "\<forall>q\<in>set pre. \<bar>pair_sum arr p\<bar> < \<bar>pair_sum arr q\<bar>"
          "\<forall>q\<in>set post. \<bar>pair_sum arr p\<bar> \<le> \<bar>pair_sum arr q\<bar>"
        have p: "abs_lt (pair_sum arr p) (min_sum s)"
          using a(4) by (simp add: u(1))
        have lt: "\<bar>pair_sum arr p\<bar> < \<bar>?c\<bar>"
          by (rule abs_lt_between [OF p noupd])
        have "visited arr s = ((left s, right s) # pre) @ p # post"
          by (simp add: vis a(1))
        moreover have "\<forall>q\<in>set ((left s, right s) # pre). \<bar>pair_sum arr p\<bar> < \<bar>pair_sum arr q\<bar>"
          using a(5) lt by simp
        ultimately show ?thesis
          using t a(2,3,6) p unfolding loop by blast
      qed
    qed
  qed
qed

subsection \<open>The scan skips no better pair\<close>

text \<open>
  On a sorted list, every pair of positions inside the window is matched by a cursor
  pair of the scan whose absolute sum is at most as large: the cursor that moves
  leaves behind only pairs that the current one already matches.
\<close>

lemma visited_covers:
  assumes "sorted arr"
    and "0 \<le> left s" "left s \<le> right s" "right s < int (length arr)"
    and "nat (left s) \<le> i" "i < j" "j \<le> nat (right s)"
  shows "\<exists>p\<in>set (visited arr s). \<bar>pair_sum arr p\<bar> \<le> \<bar>arr ! i + arr ! j\<bar>"
  using assms
proof (induction arr s rule: visited.induct)
  case (1 arr s)
  have lr: "left s < right s"
    using "1.prems" by linarith
  let ?c = "pair_sum arr (left s, right s)"
  obtain s' where b: "body arr s = Inr s'"
    using body_in_range [OF "1.prems"(2) lr "1.prems"(4)] by blast
  note inv = body_left_right [OF "1.prems"(2) lr "1.prems"(4) b]
  have vis: "visited arr s = (left s, right s) # visited arr s'"
    using lr b by (subst visited.simps) simp
  have jlen: "j < length arr" and ilen: "i < length arr"
    using "1.prems" by linarith+
  have lo: "arr ! nat (left s) \<le> arr ! i"
    using \<open>sorted arr\<close> "1.prems"(5) ilen by (simp add: sorted_nth_mono)
  have hi: "arr ! j \<le> arr ! nat (right s)"
    using \<open>sorted arr\<close> "1.prems"(7,4,2,3) by (simp add: sorted_nth_mono)
  have ij: "arr ! i \<le> arr ! j"
    using \<open>sorted arr\<close> "1.prems"(6) jlen by (simp add: sorted_nth_mono)
  show ?case
  proof (cases "?c < 0")
    case neg: True
    then have mv: "left s' = left s + 1" "right s' = right s"
      by (simp_all add: body_fields [OF "1.prems"(2) lr "1.prems"(4) b])
    show ?thesis
    proof (cases "i = nat (left s)")
      case True
      have "arr ! i + arr ! j \<le> ?c"
        using hi True by (simp add: pair_sum_def)
      then have "\<bar>?c\<bar> \<le> \<bar>arr ! i + arr ! j\<bar>"
        using neg by linarith
      then show ?thesis by (auto simp: vis)
    next
      case False
      then have "nat (left s') \<le> i" "j \<le> nat (right s')"
        using "1.prems"(5,7,2) mv by linarith+
      with "1.IH" [OF lr b \<open>sorted arr\<close>] inv \<open>i < j\<close>
      show ?thesis by (auto simp: vis)
    qed
  next
    case nonneg: False
    then have mv: "left s' = left s" "right s' = right s - 1"
      by (simp_all add: body_fields [OF "1.prems"(2) lr "1.prems"(4) b])
    show ?thesis
    proof (cases "j = nat (right s)")
      case True
      have "?c \<le> arr ! i + arr ! j"
        using lo True by (simp add: pair_sum_def)
      then have "\<bar>?c\<bar> \<le> \<bar>arr ! i + arr ! j\<bar>"
        using nonneg by linarith
      then show ?thesis by (auto simp: vis)
    next
      case False
      then have "nat (left s') \<le> i" "j \<le> nat (right s')"
        using "1.prems"(5,7,2) mv by linarith+
      with "1.IH" [OF lr b \<open>sorted arr\<close>] inv \<open>i < j\<close>
      show ?thesis by (auto simp: vis)
    qed
  qed
qed

subsection \<open>The number of iterations\<close>

text \<open>
  The loop returns its state untouched as soon as \<open>left < right\<close> fails. From a state
  inside the bounds it returns what \<open>right - left\<close> runs of the body in a row produce;
  after fewer runs the loop condition still holds, and every run of the body narrows
  the gap \<open>right - left\<close> by exactly one, so no other number of runs gives the state
  the loop returns. The cursors of that state lie inside the window the loop started
  from.
\<close>

lemma while_loop_exit:
  "\<not> left u < right u \<Longrightarrow> while_loop arr u = Inr u"
  by (subst while_loop.simps) simp

lemma while_loop_iterate:
  assumes "0 \<le> left s" "left s \<le> right s" "right s < int (length arr)"
  shows "while_loop arr s = iterate_body (nat (right s - left s)) arr s"
  using assms
proof (induction arr s rule: while_loop.induct)
  case (1 arr s)
  show ?case
  proof (cases "left s < right s")
    case False
    with "1.prems" have "nat (right s - left s) = 0" by simp
    with False show ?thesis by (simp add: while_loop_exit)
  next
    case True
    obtain s' where b: "body arr s = Inr s'"
      using body_in_range [OF "1.prems"(1) True "1.prems"(3)] by blast
    note inv = body_left_right [OF "1.prems"(1) True "1.prems"(3) b]
    note f = body_fields [OF "1.prems"(1) True "1.prems"(3) b]
    have "right s' - left s' = right s - left s - 1"
      by (simp add: f)
    then have n: "nat (right s - left s) = Suc (nat (right s' - left s'))"
      using True by simp
    have "while_loop arr s = while_loop arr s'"
      using True b by (subst while_loop.simps) simp
    also have "\<dots> = iterate_body (nat (right s' - left s')) arr s'"
      using "1.IH" [OF True b] inv by simp
    also have "\<dots> = iterate_body (nat (right s - left s)) arr s"
      by (simp add: n b)
    finally show ?thesis .
  qed
qed

lemma iterate_body_before_end:
  assumes "0 \<le> left s" "left s \<le> right s" "right s < int (length arr)"
    and "k < nat (right s - left s)"
  shows "\<exists>u. iterate_body k arr s = Inr u \<and> 0 \<le> left u \<and> left u < right u \<and>
           right u < int (length arr) \<and> right u - left u = right s - left s - int k"
  using assms
proof (induction k arbitrary: s)
  case 0
  then show ?case by simp
next
  case (Suc k)
  from Suc.prems(4) have lr: "left s < right s" by simp
  obtain s' where b: "body arr s = Inr s'"
    using body_in_range [OF Suc.prems(1) lr Suc.prems(3)] by blast
  note inv = body_left_right [OF Suc.prems(1) lr Suc.prems(3) b]
  note f = body_fields [OF Suc.prems(1) lr Suc.prems(3) b]
  have d: "right s' - left s' = right s - left s - 1"
    by (simp add: f)
  then have "k < nat (right s' - left s')"
    using Suc.prems(4) by simp
  with Suc.IH [of s'] inv obtain u where
    "iterate_body k arr s' = Inr u" "0 \<le> left u" "left u < right u"
    "right u < int (length arr)" "right u - left u = right s' - left s' - int k"
    by blast
  then show ?case
    using b d by simp
qed

lemma while_loop_final_bounds:
  assumes "0 \<le> left s" "left s \<le> right s" "right s < int (length arr)"
    and "while_loop arr s = Inr t"
  shows "left s \<le> left t \<and> right t \<le> right s"
  using assms
proof (induction arr s rule: while_loop.induct)
  case (1 arr s)
  show ?case
  proof (cases "left s < right s")
    case False
    with "1.prems"(4) show ?thesis by (simp add: while_loop_exit)
  next
    case True
    obtain s' where b: "body arr s = Inr s'"
      using body_in_range [OF "1.prems"(1) True "1.prems"(3)] by blast
    note inv = body_left_right [OF "1.prems"(1) True "1.prems"(3) b]
    have "while_loop arr s' = Inr t"
      using "1.prems"(4) True b by (subst (asm) while_loop.simps) simp
    with "1.IH" [OF True b] inv show ?thesis by simp
  qed
qed


lemma iterate_body_gap:
  "iterate_body k arr s = Inr u \<Longrightarrow> right u - left u = right s - left s - int k"
proof (induction k arbitrary: s)
  case 0
  then show ?case by simp
next
  case (Suc k)
  from Suc.prems obtain s' where b: "body arr s = Inr s'"
    and it: "iterate_body k arr s' = Inr u"
    by (auto split: sum.splits)
  from b have "right s' - left s' = right s - left s - 1"
    by (auto simp: body_def move_pointers_def update_best_def split: sum.splits if_splits)
  with Suc.IH [OF it] show ?case by simp
qed

section \<open>Positions and multisets\<close>

text \<open>
  Two distinct positions of a list hold a two-element sub-multiset of its elements,
  and every two-element sub-multiset is found at two distinct positions. This carries
  pairs of positions between the caller's list and its sorted form.
\<close>

lemma two_positions_mset_lt:
  assumes "i < j" "j < length xs"
  shows "{#xs ! i, xs ! j#} \<subseteq># mset xs"
proof -
  have split: "xs = take j xs @ xs ! j # drop (Suc j) xs"
    using assms(2) by (rule id_take_nth_drop)
  have "xs ! i \<in> set (take j xs)"
    using assms by (auto simp: in_set_conv_nth intro!: exI [of _ i])
  then have "{#xs ! i#} \<subseteq># mset (take j xs)"
    by simp
  then have "{#xs ! i#} + {#xs ! j#} \<subseteq># mset (take j xs) + ({#xs ! j#} + mset (drop (Suc j) xs))"
    by (intro mset_subset_eq_mono_add) simp_all
  also have "mset (take j xs) + ({#xs ! j#} + mset (drop (Suc j) xs)) = mset (take j xs @ xs ! j # drop (Suc j) xs)"
    by simp
  also have "\<dots> = mset xs"
    using split by simp
  finally show ?thesis by (simp add: add_mset_commute)
qed

lemma two_positions_mset:
  assumes "i \<noteq> j" "i < length xs" "j < length xs"
  shows "{#xs ! i, xs ! j#} \<subseteq># mset xs"
proof (cases "i < j")
  case True
  then show ?thesis using assms(3) by (rule two_positions_mset_lt)
next
  case False
  with assms(1) have "j < i" by simp
  from two_positions_mset_lt [OF this assms(2)] show ?thesis
    by (simp add: add_mset_commute)
qed

lemma mset_two_positions:
  assumes "{#u, v#} \<subseteq># mset ys"
  shows "\<exists>i j. i < j \<and> j < length ys \<and>
           ((ys ! i = u \<and> ys ! j = v) \<or> (ys ! i = v \<and> ys ! j = u))"
proof -
  from assms have "u \<in># mset ys"
    by (simp add: insert_subset_eq_iff)
  then have "u \<in> set ys" by simp
  then obtain as bs where ys: "ys = as @ u # bs"
    by (auto dest: split_list)
  from assms have "{#v#} \<subseteq># mset ys - {#u#}"
    by (simp add: insert_subset_eq_iff)
  then have "v \<in> set as \<or> v \<in> set bs"
    by (auto simp: ys)
  then show ?thesis
  proof
    assume "v \<in> set as"
    then obtain k where k: "k < length as" "as ! k = v"
      by (auto simp: in_set_conv_nth)
    have "ys ! k = v" "ys ! length as = u" "k < length as" "length as < length ys"
      using k by (simp_all add: ys nth_append)
    then show ?thesis by blast
  next
    assume "v \<in> set bs"
    then obtain k where k: "k < length bs" "bs ! k = v"
      by (auto simp: in_set_conv_nth)
    have "ys ! length as = u" "ys ! (Suc (length as + k)) = v"
      "length as < Suc (length as + k)" "Suc (length as + k) < length ys"
      using k by (simp_all add: ys nth_append)
    then show ?thesis by blast
  qed
qed

section \<open>The whole call\<close>

text \<open>
  For a list of at least two elements the call returns the pair of the first cursor
  pair of the scan that has the smallest absolute sum, and that sum is the smallest
  over all pairs of positions of the sorted list.
\<close>

lemma find_run:
  assumes "2 \<le> length arr"
  shows "\<exists>pre p post. visited (sort arr) (init_state (sort arr)) = pre @ p # post \<and>
           find_closest_sum_to_zero arr = (sort arr, Inr (pair_at (sort arr) p)) \<and>
           (\<forall>q\<in>set pre. \<bar>pair_sum (sort arr) p\<bar> < \<bar>pair_sum (sort arr) q\<bar>) \<and>
           (\<forall>q\<in>set post. \<bar>pair_sum (sort arr) p\<bar> \<le> \<bar>pair_sum (sort arr) q\<bar>)"
proof -
  let ?ys = "sort arr"
  let ?s = "init_state ?ys"
  have inv: "0 \<le> left ?s" "left ?s \<le> right ?s" "right ?s < int (length ?ys)"
    using assms by (auto simp: init_state_def)
  have "length (visited ?ys ?s) = nat (right ?s - left ?s)"
    by (rule visited_length [OF inv])
  then have ne: "visited ?ys ?s \<noteq> []"
    using assms by (auto simp: init_state_def)
  have inf: "min_sum ?s = FloatInf"
    by (simp add: init_state_def)
  from while_loop_first_min [OF inv] ne obtain t pre p post where
    "while_loop ?ys ?s = Inr t" "visited ?ys ?s = pre @ p # post"
    "result t = pair_at ?ys p"
    "\<forall>q\<in>set pre. \<bar>pair_sum ?ys p\<bar> < \<bar>pair_sum ?ys q\<bar>"
    "\<forall>q\<in>set post. \<bar>pair_sum ?ys p\<bar> \<le> \<bar>pair_sum ?ys q\<bar>"
    unfolding inf by (cases "visited ?ys ?s") auto
  moreover from this have "find_closest_sum_to_zero arr = (?ys, Inr (pair_at ?ys p))"
    using assms by (simp add: find_closest_sum_to_zero_def Let_def)
  ultimately show ?thesis by blast
qed

lemma find_positions:
  assumes "2 \<le> length arr"
  shows "\<exists>i j. i < j \<and> j < length arr \<and>
           find_closest_sum_to_zero arr =
             (sort arr, Inr (Some (sort arr ! i), Some (sort arr ! j))) \<and>
           (\<forall>i' j'. i' < j' \<and> j' < length arr \<longrightarrow>
              \<bar>sort arr ! i + sort arr ! j\<bar> \<le> \<bar>sort arr ! i' + sort arr ! j'\<bar>)"
proof -
  let ?ys = "sort arr"
  let ?s = "init_state ?ys"
  have inv: "0 \<le> left ?s" "left ?s \<le> right ?s" "right ?s < int (length ?ys)"
    using assms by (auto simp: init_state_def)
  from find_run [OF assms] obtain pre p post where
    vis: "visited ?ys ?s = pre @ p # post" and
    res: "find_closest_sum_to_zero arr = (?ys, Inr (pair_at ?ys p))" and
    pre: "\<forall>q\<in>set pre. \<bar>pair_sum ?ys p\<bar> < \<bar>pair_sum ?ys q\<bar>" and
    post: "\<forall>q\<in>set post. \<bar>pair_sum ?ys p\<bar> \<le> \<bar>pair_sum ?ys q\<bar>"
    by blast
  have best: "\<bar>pair_sum ?ys p\<bar> \<le> \<bar>pair_sum ?ys q\<bar>" if "q \<in> set (visited ?ys ?s)" for q
    using that pre post by (auto simp: vis)
  have "p \<in> set (visited ?ys ?s)"
    by (simp add: vis)
  from visited_bounds [OF inv this]
  have p: "0 \<le> fst p" "fst p < snd p" "snd p < int (length arr)"
    by (simp_all add: init_state_def)
  have "\<bar>?ys ! nat (fst p) + ?ys ! nat (snd p)\<bar> \<le> \<bar>?ys ! i' + ?ys ! j'\<bar>"
    if "i' < j'" "j' < length arr" for i' j'
  proof -
    have "\<exists>q\<in>set (visited ?ys ?s). \<bar>pair_sum ?ys q\<bar> \<le> \<bar>?ys ! i' + ?ys ! j'\<bar>"
      using that by (intro visited_covers inv) (simp_all add: init_state_def)
    then obtain q where "q \<in> set (visited ?ys ?s)" "\<bar>pair_sum ?ys q\<bar> \<le> \<bar>?ys ! i' + ?ys ! j'\<bar>"
      by blast
    with best [of q] show ?thesis by (simp add: pair_sum_def)
  qed
  moreover have "nat (fst p) < nat (snd p)" "nat (snd p) < length arr"
    using p by linarith+
  moreover have "find_closest_sum_to_zero arr =
      (?ys, Inr (Some (?ys ! nat (fst p)), Some (?ys ! nat (snd p))))"
    by (simp add: res pair_at_def)
  ultimately show ?thesis by blast
qed

text \<open>
  The call reads its argument only through its length and its sorted form, so two
  lists with the same sorted form give the same outcome.
\<close>

lemma find_depends_on_sort:
  assumes "sort ys = sort xs"
  shows "find_closest_sum_to_zero ys = (if length xs < 2 then (ys, snd (find_closest_sum_to_zero xs)) else find_closest_sum_to_zero xs)"
proof -
  have "length (sort ys) = length (sort xs)"
    by (simp only: assms)
  then have "length ys = length xs" by simp
  then show ?thesis
    by (simp add: find_closest_sum_to_zero_def assms)
qed

text \<open>A pair of integers in non-decreasing order is determined by its two values.\<close>

lemma doubleton_min_max:
  fixes a b c d :: int
  assumes "{a, b} = {c, d}" "a \<le> b"
  shows "a = min c d \<and> b = max c d"
  using assms by (auto simp: doubleton_eq_iff)

section \<open>The specified properties\<close>

subsection \<open>Correctness of the returned pair\<close>

text \<open>
  Claim C1. For every input list of length at least 2 the call returns a pair
  \<open>(a, b)\<close> such that \<open>a\<close> and \<open>b\<close> both occur in the input, counting multiplicity
  (the multiset of the two is contained in the multiset of the input), and for every
  two distinct positions \<open>i\<close>, \<open>j\<close> of the input the absolute value of
  \<open>arr[i] + arr[j]\<close> is at least that of \<open>a + b\<close>.
\<close>

theorem closest_pair_correct:
  assumes "2 \<le> length arr"
  shows "\<exists>a b. snd (find_closest_sum_to_zero arr) = Inr (Some a, Some b) \<and>
           {#a, b#} \<subseteq># mset arr \<and>
           (\<forall>i j. i < length arr \<and> j < length arr \<and> i \<noteq> j \<longrightarrow>
              \<bar>arr ! i + arr ! j\<bar> \<ge> \<bar>a + b\<bar>)"
proof -
  let ?ys = "sort arr"
  from find_positions [OF assms] obtain i j where
    ij: "i < j" "j < length arr" and
    res: "find_closest_sum_to_zero arr = (?ys, Inr (Some (?ys ! i), Some (?ys ! j)))" and
    best: "\<And>i' j'. i' < j' \<Longrightarrow> j' < length arr \<Longrightarrow>
             \<bar>?ys ! i + ?ys ! j\<bar> \<le> \<bar>?ys ! i' + ?ys ! j'\<bar>"
    by blast
  have "{#?ys ! i, ?ys ! j#} \<subseteq># mset ?ys"
    using ij by (intro two_positions_mset_lt) simp_all
  then have occ: "{#?ys ! i, ?ys ! j#} \<subseteq># mset arr"
    by simp
  have "\<bar>?ys ! i + ?ys ! j\<bar> \<le> \<bar>arr ! k + arr ! l\<bar>"
    if "k < length arr" "l < length arr" "k \<noteq> l" for k l
  proof -
    have "{#arr ! k, arr ! l#} \<subseteq># mset ?ys"
      using two_positions_mset [OF that(3,1,2)] by simp
    from mset_two_positions [OF this] obtain i' j' where
      "i' < j'" "j' < length arr" "?ys ! i' + ?ys ! j' = arr ! k + arr ! l"
      by auto
    with best [of i' j'] show ?thesis by simp
  qed
  with res occ show ?thesis by auto
qed

text \<open>
  The theorem at the first demonstration list of the source, \<open>[-8, 4, 5, -10, 3]\<close>:
  the call returns \<open>(-8, 5)\<close>, and the positions 0 and 3 give a sum no closer to zero.
\<close>

theorem closest_pair_correct_witness:
  "2 \<le> length [-8, 4, 5, -10, 3 :: int] \<and>
   snd (find_closest_sum_to_zero [-8, 4, 5, -10, 3]) = Inr (Some (-8), Some 5) \<and>
   {#-8, 5#} \<subseteq># mset [-8, 4, 5, -10, 3 :: int] \<and>
   \<bar>[-8, 4, 5, -10, 3 :: int] ! 0 + [-8, 4, 5, -10, 3] ! 3\<bar> \<ge> \<bar>(-8) + 5 :: int\<bar>"
proof -
  let ?arr = "[-8, 4, 5, -10, 3 :: int]"
  have len: "2 \<le> length ?arr" by simp
  have run: "snd (find_closest_sum_to_zero ?arr) = Inr (Some (-8), Some 5)"
    by code_simp
  from closest_pair_correct [OF len] obtain a b where
    ab: "snd (find_closest_sum_to_zero ?arr) = Inr (Some a, Some b)"
      "{#a, b#} \<subseteq># mset ?arr"
      "\<forall>i j. i < length ?arr \<and> j < length ?arr \<and> i \<noteq> j \<longrightarrow>
         \<bar>?arr ! i + ?arr ! j\<bar> \<ge> \<bar>a + b\<bar>"
    by blast
  from ab(1) run have eq: "a = -8" "b = 5" by simp_all
  have "0 < length ?arr \<and> 3 < length ?arr \<and> (0::nat) \<noteq> 3" by simp
  with ab(3) have "\<bar>?arr ! 0 + ?arr ! 3\<bar> \<ge> \<bar>a + b\<bar>" by blast
  with len run ab(2) show ?thesis unfolding eq by blast
qed

subsection \<open>The length guard\<close>

text \<open>
  Claim C2. The call fails with the error of line 22 (the \<open>ValueError\<close> whose message
  says that the array must contain at least 2 elements; the specification calls it
  InvalidInputError) if and only if the input has fewer than 2 elements. It fails
  with any error at all only then, and it returns a tuple exactly when the input has
  at least 2 elements: on the failing path no result is computed.
\<close>

theorem length_guard:
  "(snd (find_closest_sum_to_zero arr) =
      Inl (ValueError ''Array must contain at least 2 elements'') \<longleftrightarrow> length arr < 2) \<and>
   ((\<exists>e. snd (find_closest_sum_to_zero arr) = Inl e) \<longleftrightarrow> length arr < 2) \<and>
   ((\<exists>r. snd (find_closest_sum_to_zero arr) = Inr r) \<longleftrightarrow> 2 \<le> length arr)"
proof (cases "length arr < 2")
  case True
  then show ?thesis
    by (simp add: find_closest_sum_to_zero_def)
next
  case False
  then have "2 \<le> length arr" by simp
  from find_positions [OF this] obtain r where
    "snd (find_closest_sum_to_zero arr) = Inr r" by auto
  with False show ?thesis by simp
qed

text \<open>
  The guard at a one-element list, at the empty list, and at a list of two elements.
\<close>

theorem length_guard_witness:
  "snd (find_closest_sum_to_zero [5]) =
     Inl (ValueError ''Array must contain at least 2 elements'') \<and>
   snd (find_closest_sum_to_zero []) =
     Inl (ValueError ''Array must contain at least 2 elements'') \<and>
   (\<exists>r. snd (find_closest_sum_to_zero [5, -5]) = Inr r)"
  using length_guard [of "[5]"] length_guard [of "[]"] length_guard [of "[5, -5]"]
  by simp

subsection \<open>Ties keep the first pair of the scan\<close>

text \<open>
  Claim C3. An iteration whose sum is not strictly smaller in absolute value than the
  incumbent \<open>min_sum\<close> leaves \<open>min_sum\<close> and \<open>result\<close> as they were. Therefore, for an
  input of length at least 2, the tuple returned is the one formed at a cursor pair
  \<open>p\<close> of the scan such that every cursor pair visited before \<open>p\<close> has a strictly larger
  absolute sum and every cursor pair visited after \<open>p\<close> has an absolute sum at least
  as large: among the pairs that tie for the smallest absolute sum, the first one of
  the scan is returned.
\<close>

theorem first_minimal_pair_wins:
  assumes "2 \<le> length arr"
  shows "(\<forall>xs s s' x y. body xs s = Inr s' \<and> getitem xs (left s) = Inr x \<and>
             getitem xs (right s) = Inr y \<and> \<not> abs_lt (x + y) (min_sum s) \<longrightarrow>
             min_sum s' = min_sum s \<and> result s' = result s) \<and>
         (\<exists>pre p post.
             visited (sort arr) (init_state (sort arr)) = pre @ p # post \<and>
             snd (find_closest_sum_to_zero arr) = Inr (pair_at (sort arr) p) \<and>
             (\<forall>q\<in>set pre. \<bar>pair_sum (sort arr) p\<bar> < \<bar>pair_sum (sort arr) q\<bar>) \<and>
             (\<forall>q\<in>set post. \<bar>pair_sum (sort arr) p\<bar> \<le> \<bar>pair_sum (sort arr) q\<bar>))"
proof
  show "\<forall>xs s s' x y. body xs s = Inr s' \<and> getitem xs (left s) = Inr x \<and>
          getitem xs (right s) = Inr y \<and> \<not> abs_lt (x + y) (min_sum s) \<longrightarrow>
          min_sum s' = min_sum s \<and> result s' = result s"
    by (auto simp: body_def update_best_def move_pointers_def)
next
  from find_run [OF assms] obtain pre p post where
    "visited (sort arr) (init_state (sort arr)) = pre @ p # post"
    "find_closest_sum_to_zero arr = (sort arr, Inr (pair_at (sort arr) p))"
    "\<forall>q\<in>set pre. \<bar>pair_sum (sort arr) p\<bar> < \<bar>pair_sum (sort arr) q\<bar>"
    "\<forall>q\<in>set post. \<bar>pair_sum (sort arr) p\<bar> \<le> \<bar>pair_sum (sort arr) q\<bar>"
    by blast
  moreover from this have "snd (find_closest_sum_to_zero arr) = Inr (pair_at (sort arr) p)"
    by simp
  ultimately show "\<exists>pre p post.
          visited (sort arr) (init_state (sort arr)) = pre @ p # post \<and>
          snd (find_closest_sum_to_zero arr) = Inr (pair_at (sort arr) p) \<and>
          (\<forall>q\<in>set pre. \<bar>pair_sum (sort arr) p\<bar> < \<bar>pair_sum (sort arr) q\<bar>) \<and>
          (\<forall>q\<in>set post. \<bar>pair_sum (sort arr) p\<bar> \<le> \<bar>pair_sum (sort arr) q\<bar>)"
    by blast
qed

text \<open>
  The input \<open>[2, -1, 1, -2]\<close> sorts to \<open>[-2, -1, 1, 2]\<close>. The scan visits the cursor
  pairs (0, 3), (0, 2) and (1, 2); the first and the last both sum to zero, and the
  call returns the first, \<open>(-2, 2)\<close>.
\<close>

theorem first_minimal_pair_wins_witness:
  "2 \<le> length [2, -1, 1, -2 :: int] \<and>
   visited (sort [2, -1, 1, -2]) (init_state (sort [2, -1, 1, -2])) = [(0, 3), (0, 2), (1, 2)] \<and>
   pair_sum (sort [2, -1, 1, -2]) (0, 3) = 0 \<and>
   pair_sum (sort [2, -1, 1, -2]) (1, 2) = 0 \<and>
   snd (find_closest_sum_to_zero [2, -1, 1, -2]) = Inr (Some (-2), Some 2)"
proof -
  let ?arr = "[2, -1, 1, -2 :: int]"
  let ?ys = "[-2, -1, 1, 2 :: int]"
  have len: "2 \<le> length ?arr" by simp
  have ys: "sort ?arr = ?ys" by code_simp
  have vis: "visited ?ys (init_state ?ys) = [(0, 3), (0, 2), (1, 2)]"
    by code_simp
  have sums: "pair_sum ?ys (0, 3) = 0" "pair_sum ?ys (0, 2) = -1" "pair_sum ?ys (1, 2) = 0"
    by (simp_all add: pair_sum_def)
  from first_minimal_pair_wins [OF len] obtain pre p post where
    split: "visited ?ys (init_state ?ys) = pre @ p # post" and
    res: "snd (find_closest_sum_to_zero ?arr) = Inr (pair_at ?ys p)" and
    pre: "\<forall>q\<in>set pre. \<bar>pair_sum ?ys p\<bar> < \<bar>pair_sum ?ys q\<bar>"
    unfolding ys by blast
  from split have "pre @ p # post = [(0, 3), (0, 2), (1, 2)]"
    by (simp add: vis)
  then have "p = (0, 3)"
    using pre sums by (auto simp: append_eq_Cons_conv)
  then have "snd (find_closest_sum_to_zero ?arr) = Inr (Some (-2), Some 2)"
    using res by (simp add: pair_at_def)
  with len vis sums show ?thesis
    unfolding ys by blast
qed

subsection \<open>The movement of the cursors\<close>

text \<open>
  Claim C4. At an iteration, that is in a state with \<open>0 \<le> left < right < len(arr)\<close>
  (the initial state of an input of length at least 2 is one, and the body keeps the
  cursors within \<open>0 \<le> left \<le> right < len(arr)\<close>), both subscripts succeed and the body
  moves exactly one cursor: \<open>left\<close> advances by 1 when the current sum is negative, and
  otherwise (the sum is zero or positive) \<open>right\<close> retreats by 1. Whatever the sum is,
  the loop goes on from the new state, and it returns a state only when
  \<open>left < right\<close> fails. So the loop returns exactly what \<open>right - left\<close> runs of the body
  produce: after any smaller number of runs \<open>left < right\<close> still holds, no other number
  of runs gives the state the loop returns, and in that state the cursors have met
  inside the window the loop started from.
\<close>

theorem cursor_moves:
  assumes "0 \<le> left s" "left s < right s" "right s < int (length arr)"
  shows "\<exists>x y s'. getitem arr (left s) = Inr x \<and> getitem arr (right s) = Inr y \<and>
           body arr s = Inr s' \<and>
           0 \<le> left s' \<and> left s' \<le> right s' \<and> right s' < int (length arr) \<and>
           (x + y < 0 \<longrightarrow> left s' = left s + 1 \<and> right s' = right s) \<and>
           (x + y \<ge> 0 \<longrightarrow> left s' = left s \<and> right s' = right s - 1) \<and>
           while_loop arr s = while_loop arr s' \<and>
           (\<not> left s' < right s' \<longrightarrow> while_loop arr s = Inr s') \<and>
           (\<forall>u. \<not> left u < right u \<longrightarrow> while_loop arr u = Inr u) \<and>
           while_loop arr s = iterate_body (nat (right s - left s)) arr s \<and>
           (\<forall>k. k < nat (right s - left s) \<longrightarrow>
              (\<exists>u. iterate_body k arr s = Inr u \<and> 0 \<le> left u \<and> left u < right u \<and>
                   right u < int (length arr))) \<and>
           (\<forall>k. iterate_body k arr s = while_loop arr s \<longrightarrow> k = nat (right s - left s)) \<and>
           (\<exists>t. while_loop arr s = Inr t \<and> left t = right t \<and>
                left s \<le> left t \<and> right t \<le> right s) \<and>
           visited arr s = (left s, right s) # visited arr s' \<and>
           length (visited arr s) = nat (right s - left s)"
proof -
  let ?x = "arr ! nat (left s)" and ?y = "arr ! nat (right s)"
  let ?n = "nat (right s - left s)"
  have g: "getitem arr (left s) = Inr ?x" "getitem arr (right s) = Inr ?y"
    using assms by (simp_all add: getitem_def)
  obtain s' where b: "body arr s = Inr s'"
    using body_in_range [OF assms] by blast
  note f = body_fields [OF assms b]
  have le: "left s \<le> right s"
    using assms(2) by simp
  have mv: "?x + ?y < 0 \<longrightarrow> left s' = left s + 1 \<and> right s' = right s"
    "?x + ?y \<ge> 0 \<longrightarrow> left s' = left s \<and> right s' = right s - 1"
    by (simp_all add: f pair_sum_def)
  have inv: "0 \<le> left s' \<and> left s' \<le> right s' \<and> right s' < int (length arr)"
    using body_left_right [OF assms b] by simp
  have step: "while_loop arr s = while_loop arr s'"
    using assms(2) b by (subst while_loop.simps) simp
  have stop: "\<not> left s' < right s' \<longrightarrow> while_loop arr s = Inr s'"
    by (simp add: step while_loop_exit)
  have exit: "\<forall>u. \<not> left u < right u \<longrightarrow> while_loop arr u = Inr u"
    by (simp add: while_loop_exit)
  have iter: "while_loop arr s = iterate_body ?n arr s"
    by (rule while_loop_iterate [OF assms(1) le assms(3)])
  have early: "\<forall>k. k < ?n \<longrightarrow>
      (\<exists>u. iterate_body k arr s = Inr u \<and> 0 \<le> left u \<and> left u < right u \<and>
           right u < int (length arr))"
    using iterate_body_before_end [OF assms(1) le assms(3)] by blast
  obtain t where t: "while_loop arr s = Inr t" "left t = right t"
    using while_loop_first_min [OF assms(1) le assms(3)] by blast
  have fin: "\<exists>t. while_loop arr s = Inr t \<and> left t = right t \<and>
      left s \<le> left t \<and> right t \<le> right s"
    using t while_loop_final_bounds [OF assms(1) le assms(3) t(1)] by blast
  have count: "\<forall>k. iterate_body k arr s = while_loop arr s \<longrightarrow> k = ?n"
  proof (intro allI impI)
    fix k
    assume "iterate_body k arr s = while_loop arr s"
    then have "iterate_body k arr s = Inr t"
      by (simp add: t(1))
    from iterate_body_gap [OF this] t(2) le show "k = ?n"
      by simp
  qed
  have vis: "visited arr s = (left s, right s) # visited arr s'"
    using assms(2) b by (subst visited.simps) simp
  have len: "length (visited arr s) = ?n"
    by (rule visited_length [OF assms(1) le assms(3)])
  show ?thesis
    by (intro exI [of _ ?x] exI [of _ ?y] exI [of _ s'] conjI
        g b mv step stop exit iter early count fin vis len inv [THEN conjunct1]
        inv [THEN conjunct2, THEN conjunct1] inv [THEN conjunct2, THEN conjunct2])
qed

text \<open>
  The sorted list \<open>[-1, 0, 1]\<close> from its initial state: the first sum is exactly zero
  and \<open>right\<close> retreats from 2 to 1; after this one run of the body \<open>left < right\<close>
  still holds, and the loop returns the state of two runs, with both cursors at 1. From
  that state the loop returns at once.
\<close>

theorem cursor_moves_witness:
  "0 \<le> left (init_state [-1, 0, 1]) \<and>
   left (init_state [-1, 0, 1]) < right (init_state [-1, 0, 1]) \<and>
   right (init_state [-1, 0, 1]) < int (length [-1, 0, 1 :: int]) \<and>
   getitem [-1, 0, 1] (left (init_state [-1, 0, 1])) = Inr (-1) \<and>
   getitem [-1, 0, 1] (right (init_state [-1, 0, 1])) = Inr 1 \<and>
   (\<exists>s'. body [-1, 0, 1] (init_state [-1, 0, 1]) = Inr s' \<and> left s' = 0 \<and> right s' = 1 \<and>
      visited [-1, 0, 1] (init_state [-1, 0, 1]) = (0, 2) # visited [-1, 0, 1] s') \<and>
   length (visited [-1, 0, 1] (init_state [-1, 0, 1])) = 2 \<and>
   (\<exists>u. iterate_body 1 [-1, 0, 1] (init_state [-1, 0, 1]) = Inr u \<and> left u < right u) \<and>
   while_loop [-1, 0, 1] (init_state [-1, 0, 1]) =
     Inr \<lparr>left = 1, right = 1, min_sum = IntVal 0, result = (Some (-1), Some 1)\<rparr> \<and>
   while_loop [-1, 0, 1] \<lparr>left = 1, right = 1, min_sum = IntVal 0, result = (Some (-1), Some 1)\<rparr> =
     Inr \<lparr>left = 1, right = 1, min_sum = IntVal 0, result = (Some (-1), Some 1)\<rparr>"
proof -
  let ?arr = "[-1, 0, 1 :: int]"
  let ?s = "init_state ?arr"
  let ?t = "\<lparr>left = 1, right = 1, min_sum = IntVal 0, result = (Some (-1), Some 1)\<rparr>"
  have h: "0 \<le> left ?s" "left ?s < right ?s" "right ?s < int (length ?arr)"
    by (simp_all add: init_state_def)
  have g: "getitem ?arr (left ?s) = Inr (-1)" "getitem ?arr (right ?s) = Inr 1"
    by (simp_all add: init_state_def getitem_def)
  have lr: "left ?s = 0" "right ?s = 2" "nat (right ?s - left ?s) = 2"
    by (simp_all add: init_state_def)
  have two: "iterate_body 2 ?arr ?s = Inr ?t"
    by (simp add: numeral_2_eq_2 init_state_def body_def getitem_def update_best_def
        move_pointers_def)
  have met: "\<not> left ?t < right ?t" by simp
  from cursor_moves [OF h] obtain x y s' where c:
    "getitem ?arr (left ?s) = Inr x" "getitem ?arr (right ?s) = Inr y"
    "body ?arr ?s = Inr s'"
    "x + y \<ge> 0 \<longrightarrow> left s' = left ?s \<and> right s' = right ?s - 1"
    "\<forall>u. \<not> left u < right u \<longrightarrow> while_loop ?arr u = Inr u"
    "while_loop ?arr ?s = iterate_body (nat (right ?s - left ?s)) ?arr ?s"
    "\<forall>k. k < nat (right ?s - left ?s) \<longrightarrow>
       (\<exists>u. iterate_body k ?arr ?s = Inr u \<and> 0 \<le> left u \<and> left u < right u \<and>
            right u < int (length ?arr))"
    "visited ?arr ?s = (left ?s, right ?s) # visited ?arr s'"
    "length (visited ?arr ?s) = nat (right ?s - left ?s)"
    by blast
  from c(1,2,3,4,8) have first: "body ?arr ?s = Inr s' \<and> left s' = 0 \<and> right s' = 1 \<and>
      visited ?arr ?s = (0, 2) # visited ?arr s'"
    using g lr by simp
  from c(9) have len: "length (visited ?arr ?s) = 2"
    by (simp only: lr(3))
  have "(1::nat) < nat (right ?s - left ?s)"
    by (simp add: lr)
  with c(7) have mid: "\<exists>u. iterate_body 1 ?arr ?s = Inr u \<and> left u < right u"
    by blast
  from c(6) have run: "while_loop ?arr ?s = Inr ?t"
    by (simp only: lr(3) two)
  from c(5) met have stay: "while_loop ?arr ?t = Inr ?t"
    by blast
  from h g first len mid run stay show ?thesis
    by blast
qed

subsection \<open>The scenarios of the specification\<close>

text \<open>
  Claim C5, as stated, gives \<open>(-1, -2)\<close> for the input \<open>[-1, -2, -3, -4, -5]\<close>. The
  call does not return that tuple.
\<close>

theorem spec_scenarios_counterexample:
  "snd (find_closest_sum_to_zero [-1, -2, -3, -4, -5]) \<noteq> Inr (Some (-1), Some (-2))"
  by code_simp

text \<open>
  Claim C5, amended. The input \<open>[1, 2, 3, 4, 5]\<close> gives \<open>(1, 2)\<close>, the input
  \<open>[-1, -2, -3, -4, -5]\<close> gives \<open>(-2, -1)\<close> (the same two values, in the order of the
  sorted list), and the input \<open>[0, 0]\<close> gives \<open>(0, 0)\<close>.
\<close>

theorem spec_scenarios:
  "snd (find_closest_sum_to_zero [1, 2, 3, 4, 5]) = Inr (Some 1, Some 2) \<and>
   snd (find_closest_sum_to_zero [-1, -2, -3, -4, -5]) = Inr (Some (-2), Some (-1)) \<and>
   snd (find_closest_sum_to_zero [0, 0]) = Inr (Some 0, Some 0)"
  by code_simp

subsection \<open>The result is never the initial tuple\<close>

text \<open>
  Claim C6. For every input of length at least 2 the loop body runs at least once,
  the test of line 38 succeeds for any sum against the initial \<open>min_sum\<close>, and the call
  does not return \<open>(None, None)\<close>: it returns two integers that are elements of the
  input.
\<close>

theorem result_never_absent:
  assumes "2 \<le> length arr"
  shows "visited (sort arr) (init_state (sort arr)) \<noteq> [] \<and>
         abs_lt c (min_sum (init_state (sort arr))) \<and>
         snd (find_closest_sum_to_zero arr) \<noteq> Inr (None, None) \<and>
         (\<exists>a b. snd (find_closest_sum_to_zero arr) = Inr (Some a, Some b) \<and>
                a \<in> set arr \<and> b \<in> set arr)"
proof -
  let ?ys = "sort arr"
  from find_run [OF assms] have "visited ?ys (init_state ?ys) \<noteq> []"
    by auto
  moreover have "abs_lt c (min_sum (init_state ?ys))"
    by (simp add: init_state_def)
  moreover from find_positions [OF assms] obtain i j where
    ij: "i < j" "j < length arr" and
    res: "snd (find_closest_sum_to_zero arr) = Inr (Some (?ys ! i), Some (?ys ! j))"
    by auto
  have "?ys ! i \<in> set ?ys" "?ys ! j \<in> set ?ys"
    using ij by (simp_all del: set_sort)
  then have "?ys ! i \<in> set arr" "?ys ! j \<in> set arr"
    by simp_all
  with res have "snd (find_closest_sum_to_zero arr) \<noteq> Inr (None, None)"
    "\<exists>a b. snd (find_closest_sum_to_zero arr) = Inr (Some a, Some b) \<and>
           a \<in> set arr \<and> b \<in> set arr"
    by simp_all
  ultimately show ?thesis by blast
qed

text \<open>
  The input \<open>[7, -7]\<close> gives \<open>(-7, 7)\<close>.
\<close>

theorem result_never_absent_witness:
  "2 \<le> length [7, -7 :: int] \<and>
   snd (find_closest_sum_to_zero [7, -7]) \<noteq> Inr (None, None) \<and>
   snd (find_closest_sum_to_zero [7, -7]) = Inr (Some (-7), Some 7)"
proof -
  have len: "2 \<le> length [7, -7 :: int]" by simp
  have "snd (find_closest_sum_to_zero [7, -7]) = Inr (Some (-7), Some 7)"
    by code_simp
  with len result_never_absent [OF len, of 0] show ?thesis by blast
qed

subsection \<open>The effect on the caller's list\<close>

text \<open>
  Claim C7. For an input of length at least 2 the call succeeds, and the list the
  caller passed is afterwards sorted in non-decreasing order and has the same multiset
  of elements as before.
\<close>

theorem input_left_sorted:
  assumes "2 \<le> length arr"
  shows "(\<exists>r. snd (find_closest_sum_to_zero arr) = Inr r) \<and>
         sorted (fst (find_closest_sum_to_zero arr)) \<and>
         mset (fst (find_closest_sum_to_zero arr)) = mset arr"
proof -
  from find_positions [OF assms] obtain r where
    "find_closest_sum_to_zero arr = (sort arr, Inr r)" by blast
  then show ?thesis by simp
qed

text \<open>
  The list \<open>[3, 1, 2]\<close> is left as \<open>[1, 2, 3]\<close>.
\<close>

theorem input_left_sorted_witness:
  "2 \<le> length [3, 1, 2 :: int] \<and>
   fst (find_closest_sum_to_zero [3, 1, 2]) = [1, 2, 3] \<and>
   sorted (fst (find_closest_sum_to_zero [3, 1, 2])) \<and>
   mset (fst (find_closest_sum_to_zero [3, 1, 2])) = mset [3, 1, 2]"
proof -
  have len: "2 \<le> length [3, 1, 2 :: int]" by simp
  have "fst (find_closest_sum_to_zero [3, 1, 2]) = [1, 2, 3]"
    by code_simp
  with len input_left_sorted [OF len] show ?thesis by blast
qed

subsection \<open>A sorted copy gives the same result\<close>

text \<open>
  Claim C8. For every input of length at least 2, the call on the sorted form of the
  input returns the same outcome as the call on the input itself, and so does the call
  on any sorted list with the same multiset of values; indeed on any list with the same
  multiset of values.
\<close>

theorem sorted_copy_same_result:
  assumes "2 \<le> length arr"
  shows "snd (find_closest_sum_to_zero (sort arr)) = snd (find_closest_sum_to_zero arr) \<and>
         (\<forall>ys. sorted ys \<and> mset ys = mset arr \<longrightarrow>
            snd (find_closest_sum_to_zero ys) = snd (find_closest_sum_to_zero arr)) \<and>
         (\<forall>ys. mset ys = mset arr \<longrightarrow>
            snd (find_closest_sum_to_zero ys) = snd (find_closest_sum_to_zero arr))"
proof -
  have *: "snd (find_closest_sum_to_zero ys) = snd (find_closest_sum_to_zero arr)"
    if "mset ys = mset arr" for ys
  proof -
    have "mset (sort ys) = mset arr" "sorted (sort ys)"
      using that by simp_all
    then have "sort arr = sort ys"
      by (rule properties_for_sort)
    then have "sort ys = sort arr" by simp
    from find_depends_on_sort [OF this] assms show ?thesis by simp
  qed
  have "mset (sort arr) = mset arr" by simp
  from * [OF this] * show ?thesis by blast
qed

text \<open>
  The list \<open>[3, -2, 1]\<close> and its sorted copy \<open>[-2, 1, 3]\<close>.
\<close>

theorem sorted_copy_same_result_witness:
  "2 \<le> length [3, -2, 1 :: int] \<and> sort [3, -2, 1 :: int] = [-2, 1, 3] \<and>
   sorted [-2, 1, 3 :: int] \<and> mset [-2, 1, 3 :: int] = mset [3, -2, 1] \<and>
   snd (find_closest_sum_to_zero [-2, 1, 3]) = snd (find_closest_sum_to_zero [3, -2, 1])"
proof -
  have len: "2 \<le> length [3, -2, 1 :: int]" by simp
  have s: "sort [3, -2, 1 :: int] = [-2, 1, 3]" by code_simp
  have h: "sorted [-2, 1, 3 :: int] \<and> mset [-2, 1, 3 :: int] = mset [3, -2, 1]"
    by simp
  from sorted_copy_same_result [OF len] h
  have "snd (find_closest_sum_to_zero [-2, 1, 3]) = snd (find_closest_sum_to_zero [3, -2, 1])"
    by blast
  with len s h show ?thesis by blast
qed

subsection \<open>Determinism\<close>

text \<open>
  Claim C9. Two inputs of length at least 2 that sort identically give the same final
  list and the same outcome. In particular, when two distinct positions \<open>i\<close>, \<open>j\<close> hold
  the only pair of values whose absolute sum is smallest (every pair of distinct
  positions whose absolute sum is at most theirs holds the same two values), every
  such call returns exactly that pair, smaller value first.
\<close>

theorem deterministic_result:
  assumes "2 \<le> length xs" "sort ys = sort xs"
  shows "find_closest_sum_to_zero ys = find_closest_sum_to_zero xs \<and>
         (\<forall>i j. i < length xs \<and> j < length xs \<and> i \<noteq> j \<and>
            (\<forall>p q. p < length xs \<and> q < length xs \<and> p \<noteq> q \<and>
                \<bar>xs ! p + xs ! q\<bar> \<le> \<bar>xs ! i + xs ! j\<bar> \<longrightarrow>
                {xs ! p, xs ! q} = {xs ! i, xs ! j}) \<longrightarrow>
            snd (find_closest_sum_to_zero ys) =
              Inr (Some (min (xs ! i) (xs ! j)), Some (max (xs ! i) (xs ! j))))"
proof -
  let ?zs = "sort xs"
  have same: "find_closest_sum_to_zero ys = find_closest_sum_to_zero xs"
    using find_depends_on_sort [OF assms(2)] assms(1) by simp
  from find_positions [OF assms(1)] obtain k l where
    kl: "k < l" "l < length xs" and
    res: "snd (find_closest_sum_to_zero xs) = Inr (Some (?zs ! k), Some (?zs ! l))" and
    best: "\<And>i' j'. i' < j' \<Longrightarrow> j' < length xs \<Longrightarrow>
             \<bar>?zs ! k + ?zs ! l\<bar> \<le> \<bar>?zs ! i' + ?zs ! j'\<bar>"
    by auto
  have ord: "?zs ! k \<le> ?zs ! l"
    using kl by (intro sorted_nth_mono) simp_all
  have "{#?zs ! k, ?zs ! l#} \<subseteq># mset ?zs"
    using kl by (intro two_positions_mset_lt) simp_all
  then have "{#?zs ! k, ?zs ! l#} \<subseteq># mset xs"
    by simp
  from mset_two_positions [OF this] obtain p q where
    pq0: "p < q" "q < length xs"
      "(xs ! p = ?zs ! k \<and> xs ! q = ?zs ! l) \<or> (xs ! p = ?zs ! l \<and> xs ! q = ?zs ! k)"
    by blast
  have pq: "p < q" "q < length xs" "{xs ! p, xs ! q} = {?zs ! k, ?zs ! l}"
      "xs ! p + xs ! q = ?zs ! k + ?zs ! l"
    using pq0 by auto
  have unique: "snd (find_closest_sum_to_zero xs) =
          Inr (Some (min (xs ! i) (xs ! j)), Some (max (xs ! i) (xs ! j)))"
    if ij: "i < length xs" "j < length xs" "i \<noteq> j"
      and uniq: "\<forall>p q. p < length xs \<and> q < length xs \<and> p \<noteq> q \<and>
                \<bar>xs ! p + xs ! q\<bar> \<le> \<bar>xs ! i + xs ! j\<bar> \<longrightarrow>
                {xs ! p, xs ! q} = {xs ! i, xs ! j}" for i j
  proof -
    have "{#xs ! i, xs ! j#} \<subseteq># mset ?zs"
      using two_positions_mset [OF ij(3,1,2)] by simp
    from mset_two_positions [OF this] obtain i' j' where
      "i' < j'" "j' < length xs" "?zs ! i' + ?zs ! j' = xs ! i + xs ! j"
      by auto
    with best [of i' j'] have "\<bar>xs ! p + xs ! q\<bar> \<le> \<bar>xs ! i + xs ! j\<bar>"
      by (simp add: pq(4))
    moreover have "p < length xs" "p \<noteq> q"
      using pq(1,2) by simp_all
    ultimately have "{xs ! p, xs ! q} = {xs ! i, xs ! j}"
      using uniq pq(2) by blast
    with pq(3) have "{?zs ! k, ?zs ! l} = {xs ! i, xs ! j}"
      by (rule trans [OF sym])
    from doubleton_min_max [OF this ord] res show ?thesis
      by (simp only:)
  qed
  show ?thesis
  proof (intro conjI allI impI)
    show "find_closest_sum_to_zero ys = find_closest_sum_to_zero xs"
      by (rule same)
  next
    fix i j
    assume "i < length xs \<and> j < length xs \<and> i \<noteq> j \<and>
            (\<forall>p q. p < length xs \<and> q < length xs \<and> p \<noteq> q \<and>
                \<bar>xs ! p + xs ! q\<bar> \<le> \<bar>xs ! i + xs ! j\<bar> \<longrightarrow>
                {xs ! p, xs ! q} = {xs ! i, xs ! j})"
    then have "i < length xs" "j < length xs" "i \<noteq> j"
      "\<forall>p q. p < length xs \<and> q < length xs \<and> p \<noteq> q \<and>
                \<bar>xs ! p + xs ! q\<bar> \<le> \<bar>xs ! i + xs ! j\<bar> \<longrightarrow>
                {xs ! p, xs ! q} = {xs ! i, xs ! j}"
      by blast+
    then have "snd (find_closest_sum_to_zero xs) =
          Inr (Some (min (xs ! i) (xs ! j)), Some (max (xs ! i) (xs ! j)))"
      by (rule unique)
    then show "snd (find_closest_sum_to_zero ys) =
          Inr (Some (min (xs ! i) (xs ! j)), Some (max (xs ! i) (xs ! j)))"
      by (simp only: same)
  qed
qed

text \<open>
  The lists \<open>[3, -1, 2]\<close> and \<open>[2, 3, -1]\<close> sort identically; the only pair with the
  smallest absolute sum is \<open>-1\<close> and \<open>2\<close>, at positions 1 and 2 of the first list.
\<close>

theorem deterministic_result_witness:
  "2 \<le> length [3, -1, 2 :: int] \<and> sort [2, 3, -1 :: int] = sort [3, -1, 2] \<and>
   find_closest_sum_to_zero [2, 3, -1] = find_closest_sum_to_zero [3, -1, 2] \<and>
   snd (find_closest_sum_to_zero [2, 3, -1]) = Inr (Some (-1), Some 2)"
proof -
  let ?xs = "[3, -1, 2 :: int]"
  have len: "2 \<le> length ?xs" by simp
  have srt: "sort [2, 3, -1 :: int] = sort ?xs" by code_simp
  have uniq: "{?xs ! p, ?xs ! q} = {?xs ! 1, ?xs ! 2}"
    if "p < length ?xs \<and> q < length ?xs \<and> p \<noteq> q \<and>
        \<bar>?xs ! p + ?xs ! q\<bar> \<le> \<bar>?xs ! 1 + ?xs ! 2\<bar>" for p q
  proof -
    from that have "p \<in> {0, 1, 2}" "q \<in> {0, 1, 2}"
      by auto
    with that show ?thesis by auto
  qed
  have pos: "1 < length ?xs \<and> 2 < length ?xs \<and> (1::nat) \<noteq> 2 \<and>
      (\<forall>p q. p < length ?xs \<and> q < length ?xs \<and> p \<noteq> q \<and>
          \<bar>?xs ! p + ?xs ! q\<bar> \<le> \<bar>?xs ! 1 + ?xs ! 2\<bar> \<longrightarrow>
          {?xs ! p, ?xs ! q} = {?xs ! 1, ?xs ! 2})"
    using uniq by simp
  from deterministic_result [OF len srt]
  have same: "find_closest_sum_to_zero [2, 3, -1] = find_closest_sum_to_zero ?xs"
    and "\<forall>i j. i < length ?xs \<and> j < length ?xs \<and> i \<noteq> j \<and>
            (\<forall>p q. p < length ?xs \<and> q < length ?xs \<and> p \<noteq> q \<and>
                \<bar>?xs ! p + ?xs ! q\<bar> \<le> \<bar>?xs ! i + ?xs ! j\<bar> \<longrightarrow>
                {?xs ! p, ?xs ! q} = {?xs ! i, ?xs ! j}) \<longrightarrow>
            snd (find_closest_sum_to_zero [2, 3, -1]) =
              Inr (Some (min (?xs ! i) (?xs ! j)), Some (max (?xs ! i) (?xs ! j)))"
    by (rule conjunct1, rule conjunct2)
  from this(2) pos
  have "snd (find_closest_sum_to_zero [2, 3, -1]) =
          Inr (Some (min (?xs ! 1) (?xs ! 2)), Some (max (?xs ! 1) (?xs ! 2)))"
    by blast
  then have "snd (find_closest_sum_to_zero [2, 3, -1]) = Inr (Some (-1), Some 2)"
    by simp
  with len srt same show ?thesis by (intro conjI)
qed

subsection \<open>The order inside the returned pair\<close>

text \<open>
  Claim C10. For every input of length at least 2 the returned pair \<open>(a, b)\<close> has
  \<open>a \<le> b\<close>.
\<close>

theorem pair_ordered:
  assumes "2 \<le> length arr"
  shows "\<exists>a b. snd (find_closest_sum_to_zero arr) = Inr (Some a, Some b) \<and> a \<le> b"
proof -
  from find_positions [OF assms] obtain i j where
    ij: "i < j" "j < length arr" and
    res: "snd (find_closest_sum_to_zero arr) = Inr (Some (sort arr ! i), Some (sort arr ! j))"
    by auto
  have "sort arr ! i \<le> sort arr ! j"
    using ij by (intro sorted_nth_mono) simp_all
  with res show ?thesis by blast
qed

text \<open>
  The input \<open>[4, -6]\<close> gives \<open>(-6, 4)\<close>.
\<close>

theorem pair_ordered_witness:
  "2 \<le> length [4, -6 :: int] \<and>
   snd (find_closest_sum_to_zero [4, -6]) = Inr (Some (-6), Some 4) \<and> (-6 :: int) \<le> 4"
proof -
  have len: "2 \<le> length [4, -6 :: int]" by simp
  have run: "snd (find_closest_sum_to_zero [4, -6]) = Inr (Some (-6), Some 4)"
    by code_simp
  from pair_ordered [OF len] obtain a b where
    "snd (find_closest_sum_to_zero [4, -6]) = Inr (Some a, Some b)" "a \<le> b"
    by blast
  with run len show ?thesis by simp
qed

end
